theory Spec2Isabelle
  imports Main "HOL-Library.Sublist" "HOL-Library.AList" "HOL-Library.Multiset"
begin

section \<open>The tag pattern\<close>

text \<open>
  \<^verbatim>\<open>tagRegexp = regexp.MustCompile(`:([\w][\w.-]{0,127})$`)\<close>

  Go strings are byte sequences and so are HOL strings. The classes of the pattern hold
  ASCII bytes only, so no byte of a multi-byte character ever matches one of them and
  the pattern can be read byte by byte. \<open>$\<close> (no multi-line flag) is the end of the text.
\<close>

definition word_char :: "char \<Rightarrow> bool" where
  \<comment> \<open>\<^verbatim>\<open>\w\<close>, that is \<^verbatim>\<open>[0-9A-Za-z_]\<close>\<close>
  "word_char c =
     (c \<in> set (''0123456789'' @ ''ABCDEFGHIJKLMNOPQRSTUVWXYZ'' @
               ''abcdefghijklmnopqrstuvwxyz'' @ ''_''))"

definition tag_char :: "char \<Rightarrow> bool" where
  \<comment> \<open>\<^verbatim>\<open>[\w.-]\<close>\<close>
  "tag_char c = (word_char c \<or> c = CHR ''.'' \<or> c = CHR ''-'')"

definition tag_token :: "string \<Rightarrow> bool" where
  \<comment> \<open>\<^verbatim>\<open>[\w][\w.-]{0,127}$\<close> read from the current position: the rest of the text is
      one word character and at most 127 further tag characters\<close>
  "tag_token t =
     (case t of [] \<Rightarrow> False
      | c # cs \<Rightarrow> word_char c \<and> list_all tag_char cs \<and> length cs \<le> 127)"

text \<open>
  The leftmost match: the search tries each position from the left, and a match at a
  position is a colon followed by a token that reaches the end of the text. The result
  is the text before the match and the submatch (the token).
\<close>

fun tagRegexp_find :: "string \<Rightarrow> (string \<times> string) option" where
  "tagRegexp_find [] = None"
| "tagRegexp_find (c # cs) =
     (if c = CHR '':'' \<and> tag_token cs then Some ([], cs)
      else (case tagRegexp_find cs of
              None \<Rightarrow> None
            | Some (pre, t) \<Rightarrow> Some (c # pre, t)))"

definition tagRegexp_MatchString :: "string \<Rightarrow> bool" where
  "tagRegexp_MatchString s = (tagRegexp_find s \<noteq> None)"

definition tagRegexp_FindStringSubmatch :: "string \<Rightarrow> string list" where
  \<comment> \<open>the whole match and the submatch, or nil\<close>
  "tagRegexp_FindStringSubmatch s =
     (case tagRegexp_find s of None \<Rightarrow> [] | Some (pre, t) \<Rightarrow> [CHR '':'' # t, t])"

definition tagRegexp_ReplaceAllString :: "string \<Rightarrow> string \<Rightarrow> string" where
  \<comment> \<open>a match ends at the end of the text and is never empty, so there is at most one;
      the program's only replacement is the empty string, which holds no \<^verbatim>\<open>$\<close> to expand\<close>
  "tagRegexp_ReplaceAllString s repl =
     (case tagRegexp_find s of None \<Rightarrow> s | Some (pre, t) \<Rightarrow> pre @ repl)"

section \<open>The digest resolver\<close>

datatype error =
    EOF
  | ClientError string
  | NoTagError string
  | NoDigestsFoundError string
  | ReadEventsError error
  | URLParseError string string
  | OutsideURLModel string

text \<open>The two fields of \<^verbatim>\<open>types.ImageInspect\<close> that the program reads.\<close>

record ImageInspect =
  RepoTags :: "string list"
  RepoDigests :: "string list"

record image =
  ID :: string
  Name :: string
  Tags :: "string list"

text \<open>
  The runtime as the resolver sees it: whether \<^verbatim>\<open>client.NewEnvClient\<close> fails, and what
  \<^verbatim>\<open>ImageInspectWithRaw\<close> answers for a name (a value and an error, as in Go).
\<close>

record docker =
  NewEnvClient :: "error option"
  ImageInspectWithRaw :: "string \<Rightarrow> ImageInspect \<times> error option"

text \<open>
  The connection that \<^verbatim>\<open>getRepoDigests\<close> opens is closed again by a deferred call
  on every path; nothing the function returns depends on it, and it is left out.

  A Go map is kept as an association list with distinct keys; \<^verbatim>\<open>m[k] = v\<close> is
  \<^const>\<open>AList.update\<close>. A \<^verbatim>\<open>range\<close> over a map visits every entry once in an order
  the language leaves open: \<open>go_range\<close> takes the runtime's choices as a list of numbers
  and picks the next entry with each of them.
\<close>

type_synonym go_map = "(string \<times> string list) list"

fun go_range :: "nat list \<Rightarrow> 'a list \<Rightarrow> 'a list" where
  "go_range choices [] = []"
| "go_range [] (x # xs) = x # xs"
| "go_range (c # choices) (x # xs) =
     (let j = c mod length (x # xs)
      in (x # xs) ! j # go_range choices (take j (x # xs) @ drop (Suc j) (x # xs)))"

fun collect_tags :: "string \<Rightarrow> string list \<Rightarrow> string list \<Rightarrow> string list" where
  \<comment> \<open>the loop over \<^verbatim>\<open>image.RepoTags\<close>\<close>
  "collect_tags name [] tags = tags"
| "collect_tags name (entry # entries) tags =
     (if prefix name entry
      then (let matches = tagRegexp_FindStringSubmatch entry
            in if length matches = 2
               then collect_tags name entries (tags @ [matches ! 1])
               else collect_tags name entries tags)
      else collect_tags name entries tags)"

fun collect_digests :: "string \<Rightarrow> string list \<Rightarrow> string list \<Rightarrow> go_map \<Rightarrow> go_map" where
  \<comment> \<open>the loop over \<^verbatim>\<open>image.RepoDigests\<close>\<close>
  "collect_digests name tags [] m = m"
| "collect_digests name tags (entry # entries) m =
     (if prefix name entry
      then collect_digests name tags entries (AList.update entry tags m)
      else collect_digests name tags entries m)"

definition mapRepoDigestsToTags :: "string \<Rightarrow> ImageInspect \<Rightarrow> go_map" where
  "mapRepoDigestsToTags name inspect =
     (if name = [] then []
      else let name' = tagRegexp_ReplaceAllString name [];
               tags = collect_tags name' (RepoTags inspect) []
           in collect_digests name' tags (RepoDigests inspect) [])"

fun append_images :: "string \<Rightarrow> (string \<times> string list) list \<Rightarrow> image list \<Rightarrow> image list" where
  \<comment> \<open>the body of the \<^verbatim>\<open>range\<close> loop of \<^verbatim>\<open>getRepoDigests\<close>, over the entries as visited\<close>
  "append_images name [] images = images"
| "append_images name ((k, v) # kvs) images =
     append_images name kvs
       (images @ [\<lparr>ID = k, Name = tagRegexp_ReplaceAllString name [], Tags = v\<rparr>])"

definition getRepoDigests :: "docker \<Rightarrow> nat list \<Rightarrow> string \<Rightarrow> image list \<times> error option" where
  "getRepoDigests c choices name =
     (let images = []
      in case NewEnvClient c of
           Some err \<Rightarrow> (images, Some err)
         | None \<Rightarrow>
             if \<not> tagRegexp_MatchString name then (images, Some (NoTagError name))
             else (case ImageInspectWithRaw c name of
                     (imageInspect, Some err) \<Rightarrow> (images, Some err)
                   | (imageInspect, None) \<Rightarrow>
                       let dm = mapRepoDigestsToTags name imageInspect
                       in if length dm = 0 then (images, Some (NoDigestsFoundError name))
                          else (append_images name
                                  (go_range choices (mapRepoDigestsToTags name imageInspect))
                                  images, None)))"


section \<open>The publisher\<close>

text \<open>
  What one pass through the retry loop meets: \<^verbatim>\<open>json.Marshal\<close> fails, \<^verbatim>\<open>httpPut\<close> fails,
  or \<^verbatim>\<open>httpPut\<close> returns a response with a status code.
\<close>

datatype outcome = MarshalFails error | PutFails error | PutResponds int

datatype logline =
    LogError error
  | LogMaxRetries string
  | LogSubmitError string error
  | LogSubmitted image
  | LogStatus string int
  | LogBadRequest string int

text \<open>
  What a publishing goroutine does to the world, in order: the wait before a retry, the
  request (URL, content type, body; the body is kept as the record that was marshalled),
  a line written to the logger, and the deferred draining and closing of the response of
  a given attempt.
\<close>

datatype effect =
    Sleep3s
  | HttpPut string string image
  | Log logline
  | DrainAndClose nat

text \<open>
  The \<^verbatim>\<open>for\<close> loop of the goroutine started for the record \<open>i\<close>. \<open>net k\<close> is the outcome
  of the pass that follows \<open>k\<close> earlier ones, \<open>deferred\<close> the stack of deferred calls
  (they run when the goroutine returns, last first), \<open>trace\<close> the effects so far. The
  result is the last value of \<^verbatim>\<open>attempt\<close> and the whole trace. The counter starts at 0
  and stops at 30, so a natural number stands for Go's \<^verbatim>\<open>int\<close>.
\<close>

partial_function (option) submit_loop ::
  "string \<Rightarrow> string \<Rightarrow> image \<Rightarrow> (nat \<Rightarrow> outcome) \<Rightarrow> nat \<Rightarrow> nat list \<Rightarrow> effect list
     \<Rightarrow> (nat \<times> effect list) option"
where
  "submit_loop name url i net attempt deferred trace =
     (if attempt = 30
      then Some (attempt, trace @ [Log (LogMaxRetries name)] @ map DrainAndClose deferred)
      else
        let trace1 = (if attempt \<noteq> 0 then trace @ [Sleep3s] else trace);
            attempt1 = attempt + 1
        in case net attempt of
             MarshalFails err \<Rightarrow>
               Some (attempt1,
                     trace1 @ [Log (LogSubmitError (Name i) err)] @ map DrainAndClose deferred)
           | PutFails err \<Rightarrow>
               submit_loop name url i net attempt1 deferred
                 (trace1 @ [HttpPut url ''application/json'' i,
                            Log (LogSubmitError (Name i) err)])
           | PutResponds code \<Rightarrow>
               let trace2 = trace1 @ [HttpPut url ''application/json'' i];
                   deferred1 = attempt1 # deferred
               in if code = 200
                  then Some (attempt1,
                             trace2 @ [Log (LogSubmitted i)] @ map DrainAndClose deferred1)
                  else if code = 500
                  then submit_loop name url i net attempt1 deferred1
                         (trace2 @ [Log (LogStatus name code)])
                  else Some (attempt1,
                             trace2 @ [Log (LogBadRequest name code)]
                               @ map DrainAndClose deferred1))"

declare submit_loop.simps [code]

definition submit :: "string \<Rightarrow> string \<Rightarrow> image \<Rightarrow> (nat \<Rightarrow> outcome) \<Rightarrow> (nat \<times> effect list) option" where
  \<comment> \<open>the goroutine \<^verbatim>\<open>func(i image)\<close> of \<^verbatim>\<open>addToImageList\<close>\<close>
  "submit name url i net = submit_loop name url i net 0 [] []"

text \<open>
  \<^verbatim>\<open>addToImageList\<close> logs the resolver's error and returns, or starts one goroutine for
  each record. The goroutines share nothing; each has the outcomes of its own requests.
  The result is what \<^verbatim>\<open>addToImageList\<close> itself logs, and the run of every goroutine.
\<close>

definition addToImageList ::
  "docker \<Rightarrow> nat list \<Rightarrow> (image \<Rightarrow> nat \<Rightarrow> outcome) \<Rightarrow> string \<Rightarrow> string
     \<Rightarrow> logline list \<times> (nat \<times> effect list) option list"
where
  "addToImageList c choices net name url =
     (case getRepoDigests c choices name of
        (images, Some err) \<Rightarrow> ([LogError err], [])
      | (images, None) \<Rightarrow> ([], map (\<lambda>i. submit name url i (net i)) images))"

fun is_HttpPut :: "effect \<Rightarrow> bool" where
  "is_HttpPut (HttpPut url ct body) = True"
| "is_HttpPut e = False"

fun transient :: "outcome \<Rightarrow> bool" where
  \<comment> \<open>a transport error or status 500\<close>
  "transient (PutFails err) = True"
| "transient (PutResponds code) = (code = 500)"
| "transient (MarshalFails err) = False"

fun is_success_log :: "effect \<Rightarrow> bool" where
  "is_success_log (Log (LogSubmitted i)) = True"
| "is_success_log e = False"

section \<open>The event loop\<close>

text \<open>The three fields of \<^verbatim>\<open>events.Message\<close> that the program reads.\<close>

record message =
  msg_Type :: string
  msg_Action :: string
  msg_ID :: string

text \<open>
  What the \<^verbatim>\<open>select\<close> of \<^verbatim>\<open>processEvents\<close> receives: a value of the error channel
  (possibly nil) or a message. The result is the goroutines started and the error returned.
\<close>

datatype received = FromErrs "error option" | FromMessages message

datatype task = Go_addToImageList string string

definition processEvents :: "received \<Rightarrow> string \<Rightarrow> task list \<times> error option" where
  "processEvents sel url =
     (case sel of
        FromErrs err \<Rightarrow>
          (case err of
             None \<Rightarrow> ([], None)
           | Some e \<Rightarrow> if e \<noteq> EOF then ([], Some (ReadEventsError e)) else ([], None))
      | FromMessages m \<Rightarrow>
          if msg_Type m = ''image'' \<and> msg_Action m = ''push''
          then ([Go_addToImageList (msg_ID m) url], None)
          else ([], None))"

section \<open>Joining URLs\<close>

text \<open>
  Modelled from the spec: \<^verbatim>\<open>joinURL\<close> calls \<^verbatim>\<open>url.Parse\<close>, \<^verbatim>\<open>ResolveReference\<close> and
  \<^verbatim>\<open>String\<close> of Go's package \<^verbatim>\<open>net/url\<close>, which is not among the sources of the
  repository. The specification names what they do as the standard rules of URL
  reference resolution (RFC 3986, section 5.2), failing on input that is not valid
  syntax. The definitions below follow the library's functions of the same names for URLs
  written with letters, digits and the characters \<^verbatim>\<open>- . _ ~ / : ? #\<close> only: there no
  percent-escape and no user information occurs, so decoding and encoding leave every
  component as it is, but for a \<^verbatim>\<open>#\<close> inside a fragment. On any other input the model
  answers \<open>OutsideURLModel\<close> and says nothing about the library.
\<close>

record URL =
  Scheme :: string
  Opaque :: string
  Host :: string
  Path :: string
  ForceQuery :: bool
  RawQuery :: string
  Fragment :: string

definition is_alpha :: "char \<Rightarrow> bool" where
  "is_alpha c =
     (c \<in> set (''ABCDEFGHIJKLMNOPQRSTUVWXYZ'' @ ''abcdefghijklmnopqrstuvwxyz''))"

definition is_digit :: "char \<Rightarrow> bool" where
  "is_digit c = (c \<in> set ''0123456789'')"

definition plain_char :: "char \<Rightarrow> bool" where
  "plain_char c = (is_alpha c \<or> is_digit c \<or> c \<in> set ''-._~/:?#'')"

definition to_lower :: "char \<Rightarrow> char" where
  "to_lower c =
     (case map_of (zip ''ABCDEFGHIJKLMNOPQRSTUVWXYZ'' ''abcdefghijklmnopqrstuvwxyz'') c of
        None \<Rightarrow> c | Some l \<Rightarrow> l)"

fun split_at :: "char \<Rightarrow> string \<Rightarrow> (string \<times> string) option" where
  \<comment> \<open>the text before and the text after the first occurrence of \<open>c\<close>\<close>
  "split_at c [] = None"
| "split_at c (x # xs) =
     (if x = c then Some ([], xs)
      else (case split_at c xs of None \<Rightarrow> None | Some (a, b) \<Rightarrow> Some (x # a, b)))"

definition split_last :: "char \<Rightarrow> string \<Rightarrow> (string \<times> string) option" where
  \<comment> \<open>the text before and the text after the last occurrence of \<open>c\<close>\<close>
  "split_last c s =
     (case split_at c (rev s) of None \<Rightarrow> None | Some (a, b) \<Rightarrow> Some (rev b, rev a))"

definition url_split :: "string \<Rightarrow> char \<Rightarrow> bool \<Rightarrow> string \<times> string" where
  \<comment> \<open>\<^verbatim>\<open>split(s, c, cutc)\<close>\<close>
  "url_split s c cutc =
     (case split_at c s of
        None \<Rightarrow> (s, [])
      | Some (a, b) \<Rightarrow> if cutc then (a, b) else (a, c # b))"

fun getscheme_loop :: "string \<Rightarrow> string \<Rightarrow> string \<Rightarrow> string + string \<times> string" where
  \<comment> \<open>\<open>seen\<close> is \<^verbatim>\<open>rawurl[:i]\<close>, the third argument \<^verbatim>\<open>rawurl[i:]\<close>\<close>
  "getscheme_loop rawurl seen [] = Inr ([], rawurl)"
| "getscheme_loop rawurl seen (c # cs) =
     (if is_alpha c then getscheme_loop rawurl (seen @ [c]) cs
      else if is_digit c \<or> c = CHR ''+'' \<or> c = CHR ''-'' \<or> c = CHR ''.''
      then (if seen = [] then Inr ([], rawurl) else getscheme_loop rawurl (seen @ [c]) cs)
      else if c = CHR '':''
      then (if seen = [] then Inl ''missing protocol scheme'' else Inr (seen, cs))
      else Inr ([], rawurl))"

definition getscheme :: "string \<Rightarrow> string + string \<times> string" where
  "getscheme rawurl = getscheme_loop rawurl [] rawurl"

definition validOptionalPort :: "string \<Rightarrow> bool" where
  "validOptionalPort port =
     (case port of [] \<Rightarrow> True | c # ds \<Rightarrow> c = CHR '':'' \<and> list_all is_digit ds)"

definition parseHost :: "string \<Rightarrow> string + string" where
  "parseHost host =
     (case split_last CHR '':'' host of
        None \<Rightarrow> Inr host
      | Some (h, port) \<Rightarrow>
          if \<not> validOptionalPort (CHR '':'' # port) then Inl ''invalid port after host''
          else Inr host)"

definition first_segment_has_colon :: "string \<Rightarrow> bool" where
  "first_segment_has_colon rest = (CHR '':'' \<in> set (fst (url_split rest CHR ''/'' True)))"

definition empty_URL :: URL where
  "empty_URL = \<lparr>Scheme = [], Opaque = [], Host = [], Path = [], ForceQuery = False,
                 RawQuery = [], Fragment = []\<rparr>"

definition parse :: "string \<Rightarrow> string + URL" where
  \<comment> \<open>\<^verbatim>\<open>parse(rawurl, false)\<close>\<close>
  "parse rawurl =
     (case getscheme rawurl of
        Inl err \<Rightarrow> Inl err
      | Inr (scheme, rest0) \<Rightarrow>
          let url0 = empty_URL\<lparr>Scheme := map to_lower scheme\<rparr>;
              (rest, url) =
                (if suffix ''?'' rest0 \<and> count_list rest0 CHR ''?'' = 1
                 then (butlast rest0, url0\<lparr>ForceQuery := True\<rparr>)
                 else (case url_split rest0 CHR ''?'' True of
                         (r, q) \<Rightarrow> (r, url0\<lparr>RawQuery := q\<rparr>)))
          in if \<not> prefix ''/'' rest \<and> Scheme url \<noteq> [] then Inr (url\<lparr>Opaque := rest\<rparr>)
             else if \<not> prefix ''/'' rest \<and> first_segment_has_colon rest
             then Inl ''first path segment in URL cannot contain colon''
             else if (Scheme url \<noteq> [] \<or> \<not> prefix ''///'' rest) \<and> prefix ''//'' rest
             then (case url_split (drop 2 rest) CHR ''/'' False of
                     (authority, rest') \<Rightarrow>
                       (case parseHost authority of
                          Inl err \<Rightarrow> Inl err
                        | Inr host \<Rightarrow> Inr (url\<lparr>Host := host, Path := rest'\<rparr>)))
             else Inr (url\<lparr>Path := rest\<rparr>))"

definition url_Parse :: "string \<Rightarrow> error + URL" where
  "url_Parse rawurl =
     (if \<not> list_all plain_char rawurl then Inl (OutsideURLModel rawurl)
      else (case url_split rawurl CHR ''#'' True of
              (u, frag) \<Rightarrow>
                (case parse u of
                   Inl err \<Rightarrow> Inl (URLParseError u err)
                 | Inr url \<Rightarrow> if frag = [] then Inr url else Inr (url\<lparr>Fragment := frag\<rparr>))))"

fun strings_Split :: "string \<Rightarrow> char \<Rightarrow> string list" where
  "strings_Split [] sep = [[]]"
| "strings_Split (x # xs) sep =
     (if x = sep then [] # strings_Split xs sep
      else (x # hd (strings_Split xs sep)) # tl (strings_Split xs sep))"

fun strings_Join :: "string list \<Rightarrow> string \<Rightarrow> string" where
  "strings_Join [] sep = []"
| "strings_Join [a] sep = a"
| "strings_Join (a # b # bs) sep = a @ sep @ strings_Join (b # bs) sep"

fun dot_segments :: "string list \<Rightarrow> string list \<Rightarrow> string list" where
  \<comment> \<open>the loop of \<^verbatim>\<open>resolvePath\<close> over the elements of the path\<close>
  "dot_segments [] dst = dst"
| "dot_segments (elem # src) dst =
     (if elem = ''.'' then dot_segments src dst
      else if elem = ''..''
      then (if length dst > 0 then dot_segments src (butlast dst) else dot_segments src dst)
      else dot_segments src (dst @ [elem]))"

definition resolvePath :: "string \<Rightarrow> string \<Rightarrow> string" where
  "resolvePath base ref =
     (let full =
            (if ref = [] then base
             else if hd ref \<noteq> CHR ''/''
             then (case split_last CHR ''/'' base of
                     None \<Rightarrow> []
                   | Some (dir, file) \<Rightarrow> dir @ ''/'') @ ref
             else ref)
      in if full = [] then []
         else let src = strings_Split full CHR ''/'';
                  dst0 = dot_segments src [];
                  dst = (if last src = ''.'' \<or> last src = ''..'' then dst0 @ [[]] else dst0)
              in ''/'' @ dropWhile (\<lambda>c. c = CHR ''/'') (strings_Join dst ''/''))"

definition ResolveReference :: "URL \<Rightarrow> URL \<Rightarrow> URL" where
  "ResolveReference u ref =
     (let url = (if Scheme ref = [] then ref\<lparr>Scheme := Scheme u\<rparr> else ref)
      in if Scheme ref \<noteq> [] \<or> Host ref \<noteq> []
         then url\<lparr>Path := resolvePath (Path ref) []\<rparr>
         else if Opaque ref \<noteq> [] then url\<lparr>Host := [], Path := []\<rparr>
         else let url1 =
                    (if Path ref = [] \<and> RawQuery ref = []
                     then (let url2 = url\<lparr>RawQuery := RawQuery u\<rparr>
                           in if Fragment ref = [] then url2\<lparr>Fragment := Fragment u\<rparr>
                              else url2)
                     else url)
              in url1\<lparr>Host := Host u, Path := resolvePath (Path u) (Path ref)\<rparr>)"

definition escape_fragment :: "string \<Rightarrow> string" where
  "escape_fragment f = concat (map (\<lambda>c. if c = CHR ''#'' then ''%23'' else [c]) f)"

definition url_String :: "URL \<Rightarrow> string" where
  "url_String u =
     (let buf0 = (if Scheme u \<noteq> [] then Scheme u @ '':'' else []);
          buf1 =
            (if Opaque u \<noteq> [] then buf0 @ Opaque u
             else
               let buf2 =
                     (if Scheme u \<noteq> [] \<or> Host u \<noteq> []
                      then (if Host u \<noteq> [] \<or> Path u \<noteq> [] then buf0 @ ''//'' else buf0)
                             @ Host u
                      else buf0);
                   path = Path u;
                   buf3 =
                     (if path \<noteq> [] \<and> hd path \<noteq> CHR ''/'' \<and> Host u \<noteq> []
                      then buf2 @ ''/'' else buf2);
                   buf4 = (if buf3 = [] \<and> first_segment_has_colon path
                           then buf3 @ ''./'' else buf3)
               in buf4 @ path);
          buf5 = (if ForceQuery u \<or> RawQuery u \<noteq> [] then buf1 @ ''?'' @ RawQuery u else buf1)
      in if Fragment u \<noteq> [] then buf5 @ ''#'' @ escape_fragment (Fragment u) else buf5)"

definition joinURL :: "string \<Rightarrow> string \<Rightarrow> string \<times> error option" where
  "joinURL u path =
     (case url_Parse path of
        Inl err \<Rightarrow> ([], Some err)
      | Inr p \<Rightarrow>
          (case url_Parse u of
             Inl err \<Rightarrow> ([], Some err)
           | Inr base \<Rightarrow> (url_String (ResolveReference base p), None)))"

section \<open>Inputs of the examples\<close>

definition docker_with :: "ImageInspect \<Rightarrow> docker" where
  \<comment> \<open>a runtime that can be reached and answers every inspection with \<open>inspect\<close>\<close>
  "docker_with inspect =
     \<lparr>NewEnvClient = None, ImageInspectWithRaw = (\<lambda>name. (inspect, None))\<rparr>"

definition pushed_inspect :: ImageInspect where
  "pushed_inspect =
     \<lparr>RepoTags = [''foo/bar:notpushedyet'', ''a/b:v1'', ''a/b:latest''],
      RepoDigests = [''a/b@sha1'', ''c/d@sha2'']\<rparr>"

definition longer_name_inspect :: ImageInspect where
  "longer_name_inspect =
     \<lparr>RepoTags = [''a/b:v1'', ''a/bc:v2''],
      RepoDigests = [''a/b@sha1'', ''a/bc@sha2'']\<rparr>"

definition two_digest_inspect :: ImageInspect where
  "two_digest_inspect =
     \<lparr>RepoTags = [''a/b:v1'', ''x/y:v9'', ''a/b:latest''],
      RepoDigests = [''a/b@sha1'', ''x/y@sha3'', ''a/b@sha2'']\<rparr>"


definition pushed_record :: image where
  "pushed_record = \<lparr>ID = ''a/b@sha1'', Name = ''a/b'', Tags = [''v1'', ''latest'']\<rparr>"

definition flaky_net :: "nat \<Rightarrow> outcome" where
  "flaky_net k = (if even k then PutFails (ClientError ''connection refused'') else PutResponds 500)"

text \<open>
  The tag suffixes of the entries that start with \<open>name\<close>, in the order of the entries:
  what the resolver is to attach to every digest of that prefix.
\<close>

definition tag_suffix :: "string \<Rightarrow> string option" where
  "tag_suffix entry = map_option snd (tagRegexp_find entry)"

definition tags_with_prefix :: "string \<Rightarrow> string list \<Rightarrow> string list" where
  "tags_with_prefix name entries = List.map_filter tag_suffix (filter (prefix name) entries)"


section \<open>The tag pattern: properties\<close>



lemma tag_char_slash: "\<not> tag_char CHR ''/''"
  by (simp add: tag_char_def word_char_def)




section \<open>The digest resolver: properties\<close>

lemma mset_go_range: "mset (go_range choices xs) = mset xs"
proof (induction choices xs rule: go_range.induct)
  case (3 c choices x xs)
  define ys where "ys = x # xs"
  define j where "j = c mod length ys"
  have j: "j < length ys" by (simp add: j_def ys_def)
  have ih: "mset (go_range choices (take j ys @ drop (Suc j) ys)) = mset (take j ys @ drop (Suc j) ys)"
    using 3 [of j] by (simp add: j_def ys_def)
  have "ys = take j ys @ ys ! j # drop (Suc j) ys"
    using id_take_nth_drop [OF j] .
  then have "mset ys = mset (take j ys @ ys ! j # drop (Suc j) ys)" by simp
  also have "\<dots> = add_mset (ys ! j) (mset (take j ys @ drop (Suc j) ys))" by simp
  finally have m: "mset ys = add_mset (ys ! j) (mset (take j ys @ drop (Suc j) ys))" .
  have "go_range (c # choices) ys = ys ! j # go_range choices (take j ys @ drop (Suc j) ys)"
    unfolding ys_def j_def by (simp only: go_range.simps Let_def)
  then show ?case using ih m unfolding ys_def [symmetric] by simp
qed simp_all

lemma set_go_range: "set (go_range choices xs) = set xs"
  using mset_go_range [of choices xs] by (rule mset_eq_setD)

lemma go_range_single: "go_range choices [x] = [x]"
  by (cases choices) simp_all

lemma FindStringSubmatch_length:
  "length (tagRegexp_FindStringSubmatch e) = 2 \<longleftrightarrow> tagRegexp_find e \<noteq> None"
  by (simp add: tagRegexp_FindStringSubmatch_def split: option.split)

lemma FindStringSubmatch_nth:
  "tagRegexp_find e = Some (pre, t) \<Longrightarrow> tagRegexp_FindStringSubmatch e ! Suc 0 = t"
  by (simp add: tagRegexp_FindStringSubmatch_def)

lemma collect_tags_eq:
  "collect_tags name entries tags = tags @ tags_with_prefix name entries"
proof (induction entries arbitrary: tags)
  case Nil
  show ?case by (simp add: tags_with_prefix_def)
next
  case (Cons e entries)
  show ?case
  proof (cases "tagRegexp_find e")
    case None
    then show ?thesis
      by (simp add: Cons Let_def FindStringSubmatch_length tags_with_prefix_def
          tag_suffix_def)
  next
    case (Some p)
    obtain pre t where p: "p = (pre, t)" by (cases p)
    from Some p show ?thesis
      by (simp add: Cons Let_def FindStringSubmatch_length FindStringSubmatch_nth
          tags_with_prefix_def tag_suffix_def)
  qed
qed

lemma append_images_eq:
  "append_images name kvs images =
     images @ map (\<lambda>(k, v). \<lparr>ID = k, Name = tagRegexp_ReplaceAllString name [], Tags = v\<rparr>) kvs"
  by (induction name kvs images rule: append_images.induct) simp_all

lemma map_of_collect_digests:
  "map_of (collect_digests name tags entries m) d =
     (if d \<in> set entries \<and> prefix name d then Some tags else map_of m d)"
proof (induction entries arbitrary: m)
  case Nil
  show ?case by simp
next
  case (Cons e entries)
  show ?case by (simp add: Cons update_conv')
qed

lemma distinct_collect_digests:
  "distinct (map fst m) \<Longrightarrow> distinct (map fst (collect_digests name tags entries m))"
proof (induction entries arbitrary: m)
  case Nil
  then show ?case by simp
next
  case (Cons e entries)
  then show ?case by (simp add: distinct_update)
qed

lemma set_collect_digests:
  "set (collect_digests name tags entries []) =
     (\<lambda>d. (d, tags)) ` {d \<in> set entries. prefix name d}"
proof -
  define m where "m = collect_digests name tags entries []"
  have d: "distinct (map fst m)"
    unfolding m_def by (rule distinct_collect_digests) simp
  have mo: "map_of m k = (if k \<in> set entries \<and> prefix name k then Some tags else None)" for k
    unfolding m_def by (simp add: map_of_collect_digests)
  have "(k, v) \<in> set m \<longleftrightarrow> k \<in> set entries \<and> prefix name k \<and> v = tags" for k v
  proof -
    have "(k, v) \<in> set m \<longleftrightarrow> map_of m k = Some v"
      using d by simp
    also have "\<dots> \<longleftrightarrow> k \<in> set entries \<and> prefix name k \<and> v = tags"
      by (auto simp: mo)
    finally show ?thesis .
  qed
  then have mem: "p \<in> set m \<longleftrightarrow> fst p \<in> set entries \<and> prefix name (fst p) \<and> snd p = tags" for p
    by (cases p) simp
  have "set m = (\<lambda>d. (d, tags)) ` {d \<in> set entries. prefix name d}"
  proof (rule set_eqI)
    fix p :: "string \<times> string list"
    show "p \<in> set m \<longleftrightarrow> p \<in> (\<lambda>d. (d, tags)) ` {d \<in> set entries. prefix name d}"
      unfolding mem by (cases p) auto
  qed
  then show ?thesis by (simp add: m_def)
qed

lemma MatchString_not_Nil: "tagRegexp_MatchString name \<Longrightarrow> name \<noteq> []"
  by (auto simp: tagRegexp_MatchString_def)

text \<open>The entries of the map, for a name with a tag.\<close>

lemma set_mapRepoDigestsToTags:
  assumes "name \<noteq> []"
  shows "set (mapRepoDigestsToTags name inspect) =
     (\<lambda>d. (d, tags_with_prefix (tagRegexp_ReplaceAllString name []) (RepoTags inspect))) `
       {d \<in> set (RepoDigests inspect). prefix (tagRegexp_ReplaceAllString name []) d}"
  using assms
  by (simp add: mapRepoDigestsToTags_def Let_def collect_tags_eq set_collect_digests)

lemma map_of_mapRepoDigestsToTags:
  assumes "name \<noteq> []"
  shows "map_of (mapRepoDigestsToTags name inspect) d =
     (if d \<in> set (RepoDigests inspect) \<and> prefix (tagRegexp_ReplaceAllString name []) d
      then Some (tags_with_prefix (tagRegexp_ReplaceAllString name []) (RepoTags inspect))
      else None)"
  using assms
  by (simp add: mapRepoDigestsToTags_def Let_def collect_tags_eq map_of_collect_digests)

lemma distinct_mapRepoDigestsToTags:
  "distinct (map fst (mapRepoDigestsToTags name inspect))"
  by (simp add: mapRepoDigestsToTags_def Let_def distinct_collect_digests)

text \<open>What the resolver returns once the runtime has answered.\<close>

lemma getRepoDigests_inspected:
  assumes "NewEnvClient c = None" and "tagRegexp_MatchString name"
    and "ImageInspectWithRaw c name = (inspect, None)"
  shows "getRepoDigests c choices name =
     (if mapRepoDigestsToTags name inspect = [] then ([], Some (NoDigestsFoundError name))
      else (map (\<lambda>(k, v). \<lparr>ID = k, Name = tagRegexp_ReplaceAllString name [], Tags = v\<rparr>)
              (go_range choices (mapRepoDigestsToTags name inspect)), None))"
  using assms by (simp add: getRepoDigests_def Let_def append_images_eq)

lemma go_range_Nil: "go_range choices [] = []"
  by simp

lemma getRepoDigests_records:
  assumes "NewEnvClient c = None" and "tagRegexp_MatchString name"
    and "ImageInspectWithRaw c name = (inspect, None)"
  shows "fst (getRepoDigests c choices name) =
     map (\<lambda>(k, v). \<lparr>ID = k, Name = tagRegexp_ReplaceAllString name [], Tags = v\<rparr>)
       (go_range choices (mapRepoDigestsToTags name inspect))"
  using assms by (simp add: getRepoDigests_inspected)

lemmas pattern_defs =
  tagRegexp_MatchString_def tagRegexp_ReplaceAllString_def tagRegexp_FindStringSubmatch_def
  tag_token_def tag_char_def word_char_def

lemma pushed_map:
  "mapRepoDigestsToTags ''a/b:v1'' pushed_inspect = [(''a/b@sha1'', [''v1'', ''latest''])]"
  by (simp add: mapRepoDigestsToTags_def pushed_inspect_def pattern_defs Let_def)

lemma docker_with_simps:
  "NewEnvClient (docker_with inspect) = None"
  "ImageInspectWithRaw (docker_with inspect) name = (inspect, None)"
  by (simp_all add: docker_with_def)

text \<open>
  C5. Once the runtime is reached, a name that the tag pattern does not match makes the
  resolver fail with \<open>NoTagError\<close> and return no record. (By \<open>tagRegexp_MatchString_iff\<close>
  the pattern matches exactly the names that end in a colon and a token: a word character
  and at most 127 further word characters, dots and dashes.)
\<close>

theorem untagged_name_fails:
  assumes "NewEnvClient c = None" and "\<not> tagRegexp_MatchString name"
  shows "getRepoDigests c choices name = ([], Some (NoTagError name))"
  using assms by (simp add: getRepoDigests_def)

text \<open>The name of the first test case of the repository has no tag.\<close>

theorem untagged_name_fails_witness:
  "\<not> tagRegexp_MatchString ''quay.io/vaijab/did'' \<and>
   getRepoDigests (docker_with pushed_inspect) [] ''quay.io/vaijab/did'' =
     ([], Some (NoTagError ''quay.io/vaijab/did''))"
proof -
  have m: "\<not> tagRegexp_MatchString ''quay.io/vaijab/did''"
    by (simp add: pattern_defs)
  have c: "NewEnvClient (docker_with pushed_inspect) = None"
    by (simp add: docker_with_def)
  from untagged_name_fails [OF c m] m show ?thesis by simp
qed

text \<open>
  C6. For a name with a tag and an inspection result none of whose repo digests starts
  with the bare repository name, the resolver fails with \<open>NoDigestsFoundError\<close> and
  returns no record.
\<close>

theorem no_matching_digest_fails:
  assumes "NewEnvClient c = None" and "tagRegexp_MatchString name"
    and "ImageInspectWithRaw c name = (inspect, None)"
    and "\<forall>d \<in> set (RepoDigests inspect). \<not> prefix (tagRegexp_ReplaceAllString name []) d"
  shows "getRepoDigests c choices name = ([], Some (NoDigestsFoundError name))"
proof -
  have "name \<noteq> []" using assms(2) by (rule MatchString_not_Nil)
  then have "set (mapRepoDigestsToTags name inspect) = {}"
    using assms(4) by (simp add: set_mapRepoDigestsToTags)
  then have "mapRepoDigestsToTags name inspect = []" by simp
  then show ?thesis
    using assms(1-3) by (simp add: getRepoDigests_inspected)
qed

text \<open>The image that was built and tagged, but not pushed yet.\<close>

theorem no_matching_digest_fails_witness:
  "tagRegexp_MatchString ''foo/bar:notpushedyet'' \<and>
   list_all (\<lambda>d. \<not> prefix ''foo/bar'' d) (RepoDigests pushed_inspect) \<and>
   getRepoDigests (docker_with pushed_inspect) [] ''foo/bar:notpushedyet'' =
     ([], Some (NoDigestsFoundError ''foo/bar:notpushedyet''))"
proof -
  have m: "tagRegexp_MatchString ''foo/bar:notpushedyet''"
    by (simp add: pattern_defs)
  have b: "tagRegexp_ReplaceAllString ''foo/bar:notpushedyet'' [] = ''foo/bar''"
    by (simp add: pattern_defs)
  have d: "list_all (\<lambda>d. \<not> prefix ''foo/bar'' d) (RepoDigests pushed_inspect)"
    by (simp add: pushed_inspect_def)
  then have d': "\<forall>d \<in> set (RepoDigests pushed_inspect).
      \<not> prefix (tagRegexp_ReplaceAllString ''foo/bar:notpushedyet'' []) d"
    by (simp add: b list_all_iff)
  from no_matching_digest_fails [OF docker_with_simps(1) m docker_with_simps(2) d'] m d
  show ?thesis by simp
qed

lemma getRepoDigests_set:
  assumes "NewEnvClient c = None" and "tagRegexp_MatchString name"
    and "ImageInspectWithRaw c name = (inspect, None)"
  shows "set (fst (getRepoDigests c choices name)) =
     (\<lambda>d. \<lparr>ID = d, Name = tagRegexp_ReplaceAllString name [],
              Tags = tags_with_prefix (tagRegexp_ReplaceAllString name []) (RepoTags inspect)\<rparr>) `
       {d \<in> set (RepoDigests inspect). prefix (tagRegexp_ReplaceAllString name []) d}"
proof -
  let ?bare = "tagRegexp_ReplaceAllString name []"
  let ?mk = "\<lambda>(k, v). \<lparr>ID = k, Name = ?bare, Tags = v\<rparr>"
  have ne: "name \<noteq> []" using assms(2) by (rule MatchString_not_Nil)
  have "set (fst (getRepoDigests c choices name)) = ?mk ` set (mapRepoDigestsToTags name inspect)"
    using assms by (simp add: getRepoDigests_records set_go_range)
  also have "\<dots> = ?mk ` (\<lambda>d. (d, tags_with_prefix ?bare (RepoTags inspect))) `
      {d \<in> set (RepoDigests inspect). prefix ?bare d}"
    by (simp only: set_mapRepoDigestsToTags [OF ne])
  also have "\<dots> = (\<lambda>d. \<lparr>ID = d, Name = ?bare,
        Tags = tags_with_prefix ?bare (RepoTags inspect)\<rparr>) `
      {d \<in> set (RepoDigests inspect). prefix ?bare d}"
    by (simp add: image_image)
  finally show ?thesis .
qed

lemma getRepoDigests_distinct:
  assumes "NewEnvClient c = None" and "tagRegexp_MatchString name"
    and "ImageInspectWithRaw c name = (inspect, None)"
  shows "distinct (map ID (fst (getRepoDigests c choices name)))"
proof -
  have "map ID (fst (getRepoDigests c choices name)) =
      map fst (go_range choices (mapRepoDigestsToTags name inspect))"
    using assms by (simp add: getRepoDigests_records case_prod_unfold)
  moreover have "mset (map fst (go_range choices (mapRepoDigestsToTags name inspect))) =
      mset (map fst (mapRepoDigestsToTags name inspect))"
    by (simp add: mset_go_range)
  ultimately show ?thesis
    using distinct_mapRepoDigestsToTags [of name inspect] by (metis mset_eq_imp_distinct_iff)
qed

text \<open>
  C3. For a name with a tag and any inspection result, the map of \<^verbatim>\<open>mapRepoDigestsToTags\<close>
  sends every repo digest that starts with the bare repository name, and nothing else, to
  one and the same tag list: the tag suffixes of all repo tags that start with that name.
  The records are those of these digests, one for each, with that tag list.
  With repo tags foo/bar:notpushedyet, a/b:v1, a/b:latest and repo digests a/b@sha1,
  c/d@sha2, resolving a/b:v1 gives the one record of a/b@sha1 with repository a/b and
  tags v1, latest, whatever order the map is visited in.
\<close>

theorem digests_of_prefix_share_tags:
  "(NewEnvClient c = None \<longrightarrow> tagRegexp_MatchString name \<longrightarrow>
    ImageInspectWithRaw c name = (inspect, None) \<longrightarrow>
      (\<forall>d. map_of (mapRepoDigestsToTags name inspect) d =
             (if d \<in> set (RepoDigests inspect) \<and> prefix (tagRegexp_ReplaceAllString name []) d
              then Some (tags_with_prefix (tagRegexp_ReplaceAllString name [])
                           (RepoTags inspect))
              else None))
      \<and> set (fst (getRepoDigests c choices name)) =
        (\<lambda>d. \<lparr>ID = d, Name = tagRegexp_ReplaceAllString name [],
                 Tags = tags_with_prefix (tagRegexp_ReplaceAllString name [])
                          (RepoTags inspect)\<rparr>) `
          {d \<in> set (RepoDigests inspect). prefix (tagRegexp_ReplaceAllString name []) d}
      \<and> distinct (map ID (fst (getRepoDigests c choices name))))
   \<and> getRepoDigests (docker_with pushed_inspect) choices ''a/b:v1'' =
       ([\<lparr>ID = ''a/b@sha1'', Name = ''a/b'', Tags = [''v1'', ''latest'']\<rparr>], None)"
proof -
  have m: "tagRegexp_MatchString ''a/b:v1''" by (simp add: pattern_defs)
  have b: "tagRegexp_ReplaceAllString ''a/b:v1'' [] = ''a/b''" by (simp add: pattern_defs)
  have "getRepoDigests (docker_with pushed_inspect) choices ''a/b:v1'' =
       ([\<lparr>ID = ''a/b@sha1'', Name = ''a/b'', Tags = [''v1'', ''latest'']\<rparr>], None)"
    by (simp add: getRepoDigests_inspected [OF docker_with_simps(1) m docker_with_simps(2)]
        pushed_map go_range_single b)
  moreover have "map_of (mapRepoDigestsToTags name inspect) d =
        (if d \<in> set (RepoDigests inspect) \<and> prefix (tagRegexp_ReplaceAllString name []) d
         then Some (tags_with_prefix (tagRegexp_ReplaceAllString name []) (RepoTags inspect))
         else None)" if "tagRegexp_MatchString name" for d
    using that by (intro map_of_mapRepoDigestsToTags MatchString_not_Nil)
  ultimately show ?thesis
    by (intro conjI impI allI getRepoDigests_set getRepoDigests_distinct)
qed

text \<open>Two digests of one repository: both records carry both tags.\<close>

theorem digests_of_prefix_share_tags_witness:
  "NewEnvClient (docker_with two_digest_inspect) = None \<and>
   tagRegexp_MatchString ''a/b:v1'' \<and>
   set (fst (getRepoDigests (docker_with two_digest_inspect) [1] ''a/b:v1'')) =
     {\<lparr>ID = ''a/b@sha1'', Name = ''a/b'', Tags = [''v1'', ''latest'']\<rparr>,
      \<lparr>ID = ''a/b@sha2'', Name = ''a/b'', Tags = [''v1'', ''latest'']\<rparr>}"
proof -
  have m: "tagRegexp_MatchString ''a/b:v1''" by (simp add: pattern_defs)
  have b: "tagRegexp_ReplaceAllString ''a/b:v1'' [] = ''a/b''" by (simp add: pattern_defs)
  have t: "tags_with_prefix ''a/b'' (RepoTags two_digest_inspect) = [''v1'', ''latest'']"
    by (simp add: tags_with_prefix_def two_digest_inspect_def tag_suffix_def pattern_defs)
  have d: "{d \<in> set (RepoDigests two_digest_inspect). prefix ''a/b'' d} =
      {''a/b@sha1'', ''a/b@sha2''}"
    by (auto simp: two_digest_inspect_def)
  note general = digests_of_prefix_share_tags
    [of "docker_with two_digest_inspect" "''a/b:v1''" two_digest_inspect "[1]", THEN conjunct1]
  note records = general
    [THEN mp, OF docker_with_simps(1), THEN mp, OF m, THEN mp, OF docker_with_simps(2),
     THEN conjunct2, THEN conjunct1]
  have "set (fst (getRepoDigests (docker_with two_digest_inspect) [1] ''a/b:v1'')) =
        (\<lambda>d. \<lparr>ID = d, Name = ''a/b'', Tags = [''v1'', ''latest'']\<rparr>) `
          {''a/b@sha1'', ''a/b@sha2''}"
    unfolding records b t d ..
  then show ?thesis using m by (simp add: docker_with_simps)
qed









lemma getRepoDigests_snd:
  "snd (getRepoDigests c choices name) = snd (getRepoDigests c choices' name)"
  by (simp add: getRepoDigests_def Let_def split: option.splits prod.splits)

lemma getRepoDigests_mset:
  "mset (fst (getRepoDigests c choices name)) = mset (fst (getRepoDigests c choices' name))"
  by (simp add: getRepoDigests_def Let_def append_images_eq mset_go_range
      split: option.splits prod.splits)

text \<open>
  C9. Resolving a name twice against the same runtime gives the same error or the same
  records: whatever order the two calls visit the map in, the results hold the same
  records (with the same digest, repository and tag list) the same number of times.
\<close>

theorem resolution_deterministic:
  "snd (getRepoDigests c choices name) = snd (getRepoDigests c choices' name) \<and>
   set (fst (getRepoDigests c choices name)) = set (fst (getRepoDigests c choices' name)) \<and>
   mset (fst (getRepoDigests c choices name)) = mset (fst (getRepoDigests c choices' name))"
  using getRepoDigests_snd [of c choices name choices']
    getRepoDigests_mset [of c choices name choices'] mset_eq_setD by blast

text \<open>
  C10. Matching is by string prefix, not by repository: with repo tags a/b:v1, a/bc:v2
  and repo digests a/b@sha1, a/bc@sha2, resolving a/b:v1 succeeds and returns a record for
  the digest a/bc@sha2 of the other repository a/bc, filed under repository a/b, with the
  tag v2 of a/bc:v2 among its tags.
\<close>

theorem longer_name_included:
  "snd (getRepoDigests (docker_with longer_name_inspect) choices ''a/b:v1'') = None \<and>
   \<lparr>ID = ''a/bc@sha2'', Name = ''a/b'', Tags = [''v1'', ''v2'']\<rparr>
     \<in> set (fst (getRepoDigests (docker_with longer_name_inspect) choices ''a/b:v1''))"
proof -
  have m: "tagRegexp_MatchString ''a/b:v1''" by (simp add: pattern_defs)
  have dm: "mapRepoDigestsToTags ''a/b:v1'' longer_name_inspect =
      [(''a/b@sha1'', [''v1'', ''v2'']), (''a/bc@sha2'', [''v1'', ''v2''])]"
    by (simp add: mapRepoDigestsToTags_def longer_name_inspect_def pattern_defs Let_def)
  have b: "tagRegexp_ReplaceAllString ''a/b:v1'' [] = ''a/b''" by (simp add: pattern_defs)
  show ?thesis
    by (simp add: getRepoDigests_inspected [OF docker_with_simps(1) m docker_with_simps(2)]
        dm b set_go_range)
qed

section \<open>The publisher: properties\<close>

lemma filter_put_drains: "filter is_HttpPut (map DrainAndClose ds) = []"
  by (induction ds) simp_all

lemma submit_loop_returns:
  "k \<le> 30 \<Longrightarrow>
   \<exists>a tr. submit_loop name url i net k deferred trace = Some (a, trace @ tr) \<and>
          k \<le> a \<and> a \<le> 30 \<and> length (filter is_HttpPut tr) \<le> a - k"
proof (induction "30 - k" arbitrary: k deferred trace)
  case 0
  then have "k = 30" by simp
  then show ?case
    by (subst submit_loop.simps) (simp add: filter_put_drains)
next
  case (Suc n)
  then have k: "k \<noteq> 30" "Suc k \<le> 30" "n = 30 - Suc k" by simp_all
  show ?case
  proof (cases "net k")
    case (MarshalFails err)
    with k show ?thesis
      by (subst submit_loop.simps) (simp add: filter_put_drains)
  next
    case (PutFails err)
    let ?t = "(if k \<noteq> 0 then trace @ [Sleep3s] else trace) @
        [HttpPut url ''application/json'' i, Log (LogSubmitError (Name i) err)]"
    from Suc.hyps(1) [OF k(3) k(2), of deferred ?t]
    obtain a tr where r: "submit_loop name url i net (Suc k) deferred ?t = Some (a, ?t @ tr)"
      and b: "Suc k \<le> a" "a \<le> 30" "length (filter is_HttpPut tr) \<le> a - Suc k"
      by blast
    have "submit_loop name url i net k deferred trace = Some (a, ?t @ tr)"
      using k(1) PutFails r by (subst submit_loop.simps) simp
    moreover have "\<exists>tr'. ?t @ tr = trace @ tr' \<and> length (filter is_HttpPut tr') \<le> a - k"
      using b by (cases "k = 0") auto
    ultimately show ?thesis using b by auto
  next
    case (PutResponds code)
    let ?t2 = "(if k \<noteq> 0 then trace @ [Sleep3s] else trace) @
        [HttpPut url ''application/json'' i]"
    show ?thesis
    proof (cases "code = 500")
      case True
      let ?t = "?t2 @ [Log (LogStatus name code)]"
      from Suc.hyps(1) [OF k(3) k(2), of "Suc k # deferred" ?t]
      obtain a tr where r:
        "submit_loop name url i net (Suc k) (Suc k # deferred) ?t = Some (a, ?t @ tr)"
        and b: "Suc k \<le> a" "a \<le> 30" "length (filter is_HttpPut tr) \<le> a - Suc k"
        by blast
      have "submit_loop name url i net k deferred trace = Some (a, ?t @ tr)"
        using k(1) PutResponds True r by (subst submit_loop.simps) (simp add: Let_def)
      moreover have "\<exists>tr'. ?t @ tr = trace @ tr' \<and> length (filter is_HttpPut tr') \<le> a - k"
        using b by (cases "k = 0") auto
      ultimately show ?thesis using b by auto
    next
      case False
      with k PutResponds show ?thesis
        by (subst submit_loop.simps) (simp add: filter_put_drains Let_def)
    qed
  qed
qed

lemma drains_no_success: "\<not> list_ex is_success_log (map DrainAndClose ds)"
  by (induction ds) simp_all

lemma submit_loop_transient:
  "k \<le> 30 \<Longrightarrow> (\<forall>j. k \<le> j \<and> j < 30 \<longrightarrow> transient (net j)) \<Longrightarrow>
   \<exists>tr ds. submit_loop name url i net k deferred trace =
             Some (30, trace @ tr @ Log (LogMaxRetries name) # map DrainAndClose ds) \<and>
           length (filter is_HttpPut tr) = 30 - k \<and> \<not> list_ex is_success_log tr"
proof (induction "30 - k" arbitrary: k deferred trace)
  case 0
  then have "k = 30" by simp
  then have "submit_loop name url i net k deferred trace =
      Some (30, trace @ [] @ Log (LogMaxRetries name) # map DrainAndClose deferred)"
    by (subst submit_loop.simps) simp
  moreover have "length (filter is_HttpPut []) = 30 - k" using \<open>k = 30\<close> by simp
  moreover have "\<not> list_ex is_success_log []" by simp
  ultimately show ?case by blast
next
  case (Suc n)
  then have k: "k \<noteq> 30" "Suc k \<le> 30" "n = 30 - Suc k" "k < 30" by simp_all
  have later: "\<forall>j. Suc k \<le> j \<and> j < 30 \<longrightarrow> transient (net j)"
    using Suc.prems(2) by simp
  have now: "transient (net k)" using Suc.prems(2) k(4) by simp
  show ?case
  proof (cases "net k")
    case (MarshalFails err)
    with now show ?thesis by simp
  next
    case (PutFails err)
    let ?s = "(if k \<noteq> 0 then [Sleep3s] else []) @
        [HttpPut url ''application/json'' i, Log (LogSubmitError (Name i) err)]"
    from Suc.hyps(1) [OF k(3) k(2) later, of deferred "trace @ ?s"]
    obtain tr ds where r: "submit_loop name url i net (Suc k) deferred (trace @ ?s) =
        Some (30, (trace @ ?s) @ tr @ Log (LogMaxRetries name) # map DrainAndClose ds)"
      and b: "length (filter is_HttpPut tr) = 30 - Suc k" "\<not> list_ex is_success_log tr"
      by blast
    have "submit_loop name url i net k deferred trace =
        Some (30, trace @ (?s @ tr) @ Log (LogMaxRetries name) # map DrainAndClose ds)"
      using k(1) PutFails r by (subst submit_loop.simps) (cases "k = 0"; simp)
    moreover have "length (filter is_HttpPut (?s @ tr)) = 30 - k"
      using b(1) k(4) by simp
    moreover have "\<not> list_ex is_success_log (?s @ tr)"
      using b(2) by simp
    ultimately show ?thesis by blast
  next
    case (PutResponds code)
    with now have code: "code = 500" by simp
    let ?s = "(if k \<noteq> 0 then [Sleep3s] else []) @
        [HttpPut url ''application/json'' i, Log (LogStatus name code)]"
    from Suc.hyps(1) [OF k(3) k(2) later, of "Suc k # deferred" "trace @ ?s"]
    obtain tr ds where r:
      "submit_loop name url i net (Suc k) (Suc k # deferred) (trace @ ?s) =
        Some (30, (trace @ ?s) @ tr @ Log (LogMaxRetries name) # map DrainAndClose ds)"
      and b: "length (filter is_HttpPut tr) = 30 - Suc k" "\<not> list_ex is_success_log tr"
      by blast
    have "submit_loop name url i net k deferred trace =
        Some (30, trace @ (?s @ tr) @ Log (LogMaxRetries name) # map DrainAndClose ds)"
      using k(1) PutResponds code r
      by (subst submit_loop.simps) (cases "k = 0"; simp add: Let_def)
    moreover have "length (filter is_HttpPut (?s @ tr)) = 30 - k"
      using b(1) k(4) by simp
    moreover have "\<not> list_ex is_success_log (?s @ tr)"
      using b(2) by simp
    ultimately show ?thesis by blast
  qed
qed

text \<open>
  C2. Whatever the outcomes of the requests, the loop that publishes one record returns,
  after at most 30 passes and at most 30 requests. If each of the first 30 outcomes is a
  transport error or status 500, it makes exactly 30 requests, then logs "max retries
  reached" and returns (only the deferred closing of the responses follows), and it logs
  no success.
\<close>

theorem submit_gives_up_after_30:
  "(\<exists>attempts trace. submit name url i net = Some (attempts, trace) \<and> attempts \<le> 30 \<and>
      length (filter is_HttpPut trace) \<le> attempts) \<and>
   ((\<forall>k<30. transient (net k)) \<longrightarrow>
      (\<exists>before deferred.
          submit name url i net =
            Some (30, before @ Log (LogMaxRetries name) # map DrainAndClose deferred) \<and>
          length (filter is_HttpPut before) = 30 \<and> \<not> list_ex is_success_log before))"
proof
  from submit_loop_returns [of 0 name url i net "[]" "[]"]
  show "\<exists>attempts trace. submit name url i net = Some (attempts, trace) \<and> attempts \<le> 30 \<and>
      length (filter is_HttpPut trace) \<le> attempts"
    by (auto simp: submit_def)
next
  show "(\<forall>k<30. transient (net k)) \<longrightarrow>
      (\<exists>before deferred.
          submit name url i net =
            Some (30, before @ Log (LogMaxRetries name) # map DrainAndClose deferred) \<and>
          length (filter is_HttpPut before) = 30 \<and> \<not> list_ex is_success_log before)"
  proof
    assume "\<forall>k<30. transient (net k)"
    then have "\<forall>j. 0 \<le> j \<and> j < 30 \<longrightarrow> transient (net j)" by simp
    from submit_loop_transient [OF _ this, of name url i "[]" "[]"]
    show "\<exists>before deferred.
          submit name url i net =
            Some (30, before @ Log (LogMaxRetries name) # map DrainAndClose deferred) \<and>
          length (filter is_HttpPut before) = 30 \<and> \<not> list_ex is_success_log before"
      by (auto simp: submit_def)
  qed
qed

text \<open>A service that refuses every other connection and answers 500 otherwise.\<close>

theorem submit_gives_up_after_30_witness:
  "transient (flaky_net 0) \<and> transient (flaky_net 29) \<and>
   (\<exists>before deferred.
      submit ''a/b:v1'' ''http://host/images'' pushed_record flaky_net =
        Some (30, before @ Log (LogMaxRetries ''a/b:v1'') # map DrainAndClose deferred) \<and>
      length (filter is_HttpPut before) = 30 \<and> \<not> list_ex is_success_log before)"
proof -
  have t: "\<forall>k<30. transient (flaky_net k)" by (simp add: flaky_net_def)
  from submit_gives_up_after_30 [of "''a/b:v1''" "''http://host/images''" pushed_record flaky_net] t
  show ?thesis by (simp add: flaky_net_def)
qed

text \<open>
  C4. If the first request receives a response whose status is neither 200 nor 500, the
  loop returns after that one request: the counter is 1, and the trace holds the request,
  the line about the bad request and the closing of the response, nothing else.
\<close>

theorem submit_bad_request_once:
  assumes "net 0 = PutResponds code" and "code \<noteq> 200" and "code \<noteq> 500"
  shows "submit name url i net =
     Some (1, [HttpPut url ''application/json'' i, Log (LogBadRequest name code),
               DrainAndClose 1])"
  using assms unfolding submit_def by (subst submit_loop.simps) (simp add: Let_def)

text \<open>A service that answers 404.\<close>

theorem submit_bad_request_once_witness:
  "submit ''a/b:v1'' ''http://host/images'' pushed_record (\<lambda>k. PutResponds 404) =
     Some (1, [HttpPut ''http://host/images'' ''application/json'' pushed_record,
               Log (LogBadRequest ''a/b:v1'' 404), DrainAndClose 1])"
  using submit_bad_request_once
    [of "\<lambda>k. PutResponds 404" 404 "''a/b:v1''" "''http://host/images''" pushed_record]
  by simp

section \<open>The event loop: properties\<close>

text \<open>
  C8. When \<^verbatim>\<open>processEvents\<close> receives a message, it starts the task that resolves and
  publishes the image of the message exactly when the type of the message is "image" and
  its action is "push"; on every other message it starts nothing; in both cases it
  returns no error.
\<close>

theorem processEvents_message:
  "processEvents (FromMessages m) url =
     (if msg_Type m = ''image'' \<and> msg_Action m = ''push''
      then [Go_addToImageList (msg_ID m) url] else [], None)"
  by (simp add: processEvents_def)

section \<open>Joining URLs: properties\<close>

lemmas url_defs =
  url_Parse_def plain_char_def is_alpha_def is_digit_def url_split_def
  parse_def getscheme_def to_lower_def empty_URL_def parseHost_def split_last_def
  first_segment_has_colon_def validOptionalPort_def

lemma parse_images:
  "url_Parse ''/images'' =
     Inr \<lparr>Scheme = [], Opaque = [], Host = [], Path = ''/images'', ForceQuery = False,
          RawQuery = [], Fragment = []\<rparr>"
  by (simp add: url_defs)

lemma parse_base:
  "url_Parse ''http://host/base'' =
     Inr \<lparr>Scheme = ''http'', Opaque = [], Host = ''host'', Path = ''/base'',
          ForceQuery = False, RawQuery = [], Fragment = []\<rparr>"
  by (simp add: url_defs)

lemma resolvePath_images: "resolvePath base ''/images'' = ''/images''"
  by (simp add: resolvePath_def)

lemma ResolveReference_images:
  "ResolveReference base
     \<lparr>Scheme = [], Opaque = [], Host = [], Path = ''/images'', ForceQuery = False,
      RawQuery = [], Fragment = []\<rparr> =
     \<lparr>Scheme = Scheme base, Opaque = [], Host = Host base, Path = ''/images'',
      ForceQuery = False, RawQuery = [], Fragment = []\<rparr>"
  by (simp add: ResolveReference_def resolvePath_images)

lemma joinURL_images:
  assumes "url_Parse u = Inr base"
  shows "joinURL u ''/images'' =
     (url_String \<lparr>Scheme = Scheme base, Opaque = [], Host = Host base, Path = ''/images'',
                   ForceQuery = False, RawQuery = [], Fragment = []\<rparr>, None)"
  by (simp add: joinURL_def parse_images assms ResolveReference_images)

lemma String_host_images:
  "url_String \<lparr>Scheme = ''http'', Opaque = [], Host = ''host'', Path = ''/images'',
                ForceQuery = False, RawQuery = [], Fragment = []\<rparr> = ''http://host/images''"
  by (simp add: url_String_def)

lemma joinURL_host_base: "joinURL ''http://host/base'' ''/images'' = (''http://host/images'', None)"
  by (simp add: joinURL_images [OF parse_base] String_host_images)

text \<open>
  C1. The sub-path \<^verbatim>\<open>/images\<close> begins with a slash, so under reference resolution it takes
  the place of the path of the base: for the base \<^verbatim>\<open>http://host/base\<close> the result is not
  \<^verbatim>\<open>http://host/base/images\<close>.
\<close>

theorem joinURL_keeps_base_path:
  "joinURL ''http://host/base'' ''/images'' \<noteq> (''http://host/base/images'', None)"
  by (simp add: joinURL_host_base)

text \<open>
  C1, as amended. For the base \<^verbatim>\<open>http://host/base\<close> and the sub-path \<^verbatim>\<open>/images\<close>,
  \<^verbatim>\<open>joinURL\<close> succeeds and returns \<^verbatim>\<open>http://host/images\<close>; for every base that parses,
  the result has the scheme and the host of the base and the path \<^verbatim>\<open>/images\<close>, and
  nothing else of the base.
\<close>

theorem joinURL_replaces_base_path:
  "joinURL ''http://host/base'' ''/images'' = (''http://host/images'', None) \<and>
   (url_Parse u = Inr base \<longrightarrow>
      joinURL u ''/images'' =
        (url_String \<lparr>Scheme = Scheme base, Opaque = [], Host = Host base, Path = ''/images'',
                      ForceQuery = False, RawQuery = [], Fragment = []\<rparr>, None))"
  using joinURL_host_base joinURL_images by blast

lemma parse_port_base:
  "url_Parse ''http://h:80/v1/?x#top'' =
     Inr \<lparr>Scheme = ''http'', Opaque = [], Host = ''h:80'', Path = ''/v1/'',
          ForceQuery = False, RawQuery = ''x'', Fragment = ''top''\<rparr>"
  by (simp add: url_defs suffix_to_prefix)

text \<open>A base with a port, a longer path, a query and a fragment.\<close>

theorem joinURL_replaces_base_path_witness:
  "joinURL ''http://h:80/v1/?x#top'' ''/images'' = (''http://h:80/images'', None)"
  using joinURL_replaces_base_path
    [of "''http://h:80/v1/?x#top''"
        "\<lparr>Scheme = ''http'', Opaque = [], Host = ''h:80'', Path = ''/v1/'',
          ForceQuery = False, RawQuery = ''x'', Fragment = ''top''\<rparr>"]
  by (simp add: parse_port_base url_String_def)

end
